theory Spec2Isabelle
  imports Main
begin

section \<open>Bytes, slices and machine integers\<close>

text \<open>
  The server (\<^verbatim>\<open>server/server.go\<close>) works on Go byte slices and strings; both are
  sequences of bytes and are modelled as \<open>string\<close> (a list of 8-bit \<open>char\<close>s).
\<close>

abbreviation LF :: char where
  "LF \<equiv> CHR 0x0A"

abbreviation CR :: char where
  "CR \<equiv> CHR 0x0D"

abbreviation CRLF :: string where
  "CRLF \<equiv> [CR, LF]"

abbreviation DQUOTE :: char where
  "DQUOTE \<equiv> CHR 0x22"

abbreviation SQUOTE :: char where
  "SQUOTE \<equiv> CHR 0x27"

text \<open>
  Go's \<^verbatim>\<open>int\<close> and \<^verbatim>\<open>int64\<close> are 64-bit two's complement integers (on the 64-bit
  platforms the server targets) and \<^verbatim>\<open>uint64\<close> is a 64-bit unsigned integer.
  Values are carried as \<open>int\<close>, and the wrap-around of an operation or a conversion is
  written out where the source performs it: \<open>uint64\<close> reduces a result to the unsigned
  range and \<open>int64\<close> reads a value as two's complement.
\<close>

definition uint64 :: "int \<Rightarrow> int" where
  "uint64 x = x mod 2 ^ 64"

definition int64 :: "int \<Rightarrow> int" where
  "int64 x = (x + 2 ^ 63) mod 2 ^ 64 - 2 ^ 63"

text \<open>
  Everything that ends a Go function other than a normal return is a value of \<open>error\<close>:
  a \<^verbatim>\<open>*protocolError\<close> with its \<^verbatim>\<open>msg\<close>, \<^verbatim>\<open>io.EOF\<close> from the byte source, and a
  run-time panic (an index or a slice bound out of range).
\<close>

datatype error = protocolError string | EOF | panic

text \<open>\<^verbatim>\<open>func (err *protocolError) Error() string\<close>, on the \<^verbatim>\<open>msg\<close> field.\<close>

definition Error :: "string \<Rightarrow> string" where
  "Error msg = ''Protocol error: '' @ msg"

text \<open>
  The slice expression \<^verbatim>\<open>data[lo:hi]\<close>. Go panics unless \<open>0 \<le> lo \<le> hi \<le> cap(data)\<close>;
  the model checks \<open>hi\<close> against the length, which is the same wherever the parser
  slices: an upper bound that is not below the lower one is within the length there
  (lemma \<open>bulk_bounds\<close> for the one slice whose bound comes from the input).
\<close>

definition slice :: "string \<Rightarrow> int \<Rightarrow> int \<Rightarrow> string option" where
  "slice data lo hi =
     (if 0 \<le> lo \<and> lo \<le> hi \<and> hi \<le> int (length data)
      then Some (take (nat hi - nat lo) (drop (nat lo) data))
      else None)"

text \<open>
  The conversion \<^verbatim>\<open>string(b)\<close> of a byte: the UTF-8 encoding of the code point \<open>b\<close>,
  one byte below 0x80 and two bytes from there on.
\<close>

definition string_of_byte :: "char \<Rightarrow> string" where
  "string_of_byte b =
     (let v = (of_char b :: nat)
      in if v < 128 then [b] else [char_of (192 + v div 64), char_of (128 + v mod 64)])"

subsection \<open>strconv.ParseUint and strconv.ParseInt\<close>

text \<open>
  The two functions of Go's standard library, for base 10 and 64 bits as the parser
  calls them. \<^verbatim>\<open>ParseUint\<close> accepts a non-empty string of decimal digits whose value
  is below \<open>2^64\<close>; \<^verbatim>\<open>ParseInt\<close> accepts one optional sign before such digits and a
  value from \<open>-2^63\<close> to \<open>2^63 - 1\<close>. Every other string is an error (\<open>None\<close>).
\<close>

definition is_digit :: "char \<Rightarrow> bool" where
  "is_digit c = (48 \<le> (of_char c :: nat) \<and> (of_char c :: nat) \<le> 57)"

definition digits_value :: "string \<Rightarrow> int" where
  "digits_value s = foldl (\<lambda>v c. 10 * v + (int (of_char c) - 48)) 0 s"

definition parse_digits :: "string \<Rightarrow> int option" where
  "parse_digits s = (if s \<noteq> [] \<and> list_all is_digit s then Some (digits_value s) else None)"

definition ParseUint :: "string \<Rightarrow> int option" where
  "ParseUint s =
     (case parse_digits s of
        None \<Rightarrow> None
      | Some v \<Rightarrow> if v < 2 ^ 64 then Some v else None)"

definition ParseInt :: "string \<Rightarrow> int option" where
  "ParseInt s =
     (case s of
        [] \<Rightarrow> None
      | c # rest \<Rightarrow>
          (let neg = (c = CHR ''-'');
               ds = (if c = CHR ''+'' \<or> c = CHR ''-'' then rest else s)
           in case parse_digits ds of
                None \<Rightarrow> None
              | Some un \<Rightarrow>
                  if \<not> neg \<and> 2 ^ 63 \<le> un then None
                  else if neg \<and> 2 ^ 63 < un then None
                  else Some (if neg then - un else un)))"

section \<open>The command parser\<close>

text \<open>
  A parser result is Go's \<^verbatim>\<open>([]byte, []string, bool, error)\<close>: an error, or the raw
  bytes of the command, its arguments and the telnet flag. The need-more-data return
  \<^verbatim>\<open>nil, nil, telnet, nil\<close> is the triple with empty raw bytes.
\<close>

type_synonym parsed = "error + (string \<times> string list \<times> bool)"

text \<open>
  Two readings of a parser result for the statements below: whether it is the
  need-more-data return, and its raw bytes.
\<close>

definition need_more :: "parsed \<Rightarrow> bool" where
  "need_more r = (case r of Inl err \<Rightarrow> False | Inr (raw, args, telnet) \<Rightarrow> raw = [])"

definition raw_of :: "parsed \<Rightarrow> string" where
  "raw_of r = (case r of Inl err \<Rightarrow> [] | Inr (raw, args, telnet) \<Rightarrow> raw)"

text \<open>
  The three scanning loops of the parser have the shape
  \<^verbatim>\<open>for ; i < len(data); i++ { if data[i] == '\n' { ... } }\<close>, and the block under the
  \<^verbatim>\<open>if\<close> leaves the loop on each of its paths (\<^verbatim>\<open>return\<close> or \<^verbatim>\<open>break\<close>). So the loop
  advances \<open>i\<close> to the first LF at or after its start, where the block runs once, or
  to the end of the data. \<open>scan_lf\<close> is that loop; it returns the final \<open>i\<close>.
\<close>

function scan_lf :: "string \<Rightarrow> nat \<Rightarrow> nat" where
  "scan_lf data i =
     (if i < length data
      then (if data ! i = LF then i else scan_lf data (i + 1))
      else i)"
  by pat_completeness auto
termination
  by (relation "measure (\<lambda>(data, i). length data - i)") auto

declare scan_lf.simps [simp del]

subsection \<open>Inline (telnet) commands\<close>

text \<open>
  \<^verbatim>\<open>parseArgsFromTelnetLine\<close>: the loop over the bytes of the line, with its variables
  \<^verbatim>\<open>args\<close>, \<^verbatim>\<open>s\<close>, \<^verbatim>\<open>lspace\<close>, \<^verbatim>\<open>quote\<close> and \<^verbatim>\<open>lquote\<close> as arguments, then the code
  after the loop.
\<close>

function telnetArgs ::
  "string \<Rightarrow> nat \<Rightarrow> string list \<Rightarrow> nat \<Rightarrow> bool \<Rightarrow> bool \<Rightarrow> bool \<Rightarrow> error + string list"
where
  "telnetArgs line i args s lspace quote lquote =
     (if i < length line then
        (if line ! i = DQUOTE then
           (if quote then
              (case slice line (int s + 1) (int i) of
                 None \<Rightarrow> Inl panic
               | Some tok \<Rightarrow> telnetArgs line (i + 1) (args @ [tok]) (i + 1) lspace False True)
            else if \<not> lspace then Inl (protocolError ''unbalanced quotes in request'')
            else telnetArgs line (i + 1) args s False True lquote)
         else if line ! i = CHR '' '' then
           (if lquote then telnetArgs line (i + 1) args (s + 1) lspace quote lquote
            else
              (case slice line (int s) (int i) of
                 None \<Rightarrow> Inl panic
               | Some tok \<Rightarrow> telnetArgs line (i + 1) (args @ [tok]) (i + 1) True quote lquote))
         else telnetArgs line (i + 1) args s False quote lquote)
      else if quote then Inl (protocolError ''unbalanced quotes in request'')
      else if s < length line then
        (case slice line (int s) (int (length line)) of
           None \<Rightarrow> Inl panic
         | Some tok \<Rightarrow> Inr (args @ [tok]))
      else Inr args)"
  by pat_completeness auto
termination
  by (relation "measure (\<lambda>(line, i, args, s, lspace, quote, lquote). length line - i)") auto

declare telnetArgs.simps [simp del]

definition parseArgsFromTelnetLine :: "string \<Rightarrow> error + string list" where
  "parseArgsFromTelnetLine line = telnetArgs line 0 [] 0 True False False"

definition readBufferedTelnetCommand :: "string \<Rightarrow> parsed" where
  "readBufferedTelnetCommand data =
     (let i = scan_lf data 1
      in if i < length data then
           (let line = (if data ! (i - 1) = CR then take (i - 1) data else take i data)
            in if length line = 0 then Inr (take (i + 1) data, [], True)
               else
                 (case parseArgsFromTelnetLine line of
                    Inl err \<Rightarrow> Inl err
                  | Inr args \<Rightarrow> Inr (take (i + 1) data, args, True)))
         else Inr ([], [], True))"

subsection \<open>Multibulk commands\<close>

text \<open>
  The loop \<^verbatim>\<open>for j := int64(0); j < n; j++\<close> of \<^verbatim>\<open>readBufferedCommand\<close>, with \<^verbatim>\<open>i\<close>
  and \<^verbatim>\<open>args\<close> as arguments. \<open>k\<close> is where the inner scanning loop stops. The three
  places where the declared length \<^verbatim>\<open>n2\<close> is converted to \<^verbatim>\<open>int\<close> wrap as Go does:
  \<^verbatim>\<open>int(n2+2)\<close> is \<open>int64 (uint64 (n2 + 2))\<close> and \<^verbatim>\<open>i+int(n2)\<close> is
  \<open>int64 (i + int64 n2)\<close>. When the loop ends without a return, the function breaks
  out of the header loop and returns need-more-data.
\<close>

function readBulks :: "string \<Rightarrow> int \<Rightarrow> int \<Rightarrow> int \<Rightarrow> string list \<Rightarrow> parsed" where
  "readBulks data n j i args =
     (if j < n then
        (if i = int (length data) then Inr ([], [], False)
         else if \<not> (0 \<le> i \<and> i < int (length data)) then Inl panic
         else if data ! nat i \<noteq> CHR ''$'' then
           Inl (protocolError
             (''expected '' @ [SQUOTE, CHR ''$'', SQUOTE] @ '', got '' @ [SQUOTE]
                @ string_of_byte (data ! nat i) @ [SQUOTE]))
         else
           (let ii = i + 1; k = int (scan_lf data (nat i))
            in if k < int (length data) then
                 (if data ! nat (k - 1) \<noteq> CR then Inl (protocolError ''invalid bulk length'')
                  else
                    (case slice data ii (k - 1) of
                       None \<Rightarrow> Inl panic
                     | Some field \<Rightarrow>
                         (case ParseUint field of
                            None \<Rightarrow> Inl (protocolError ''invalid bulk length'')
                          | Some n2 \<Rightarrow>
                              (let i1 = k + 1
                               in if int (length data) - i1 < int64 (uint64 (n2 + 2))
                                  then Inr ([], [], False)
                                  else
                                    (case slice data i1 (int64 (i1 + int64 n2)) of
                                       None \<Rightarrow> Inl panic
                                     | Some arg \<Rightarrow>
                                         (let i2 = int64 (i1 + int64 (uint64 (n2 + 2)))
                                          in if j = n - 1 then
                                               (case slice data 0 i2 of
                                                  None \<Rightarrow> Inl panic
                                                | Some raw \<Rightarrow> Inr (raw, args @ [arg], False))
                                             else readBulks data n (j + 1) i2 (args @ [arg])))))))
               else readBulks data n (j + 1) k args))
      else Inr ([], [], False))"
  by pat_completeness auto
termination
  by (relation "measure (\<lambda>(data, n, j, i, args). nat (n - j))") auto

declare readBulks.simps [simp del]

definition readBufferedCommand :: "string \<Rightarrow> parsed" where
  "readBufferedCommand data =
     (if data = [] then Inl panic
      else if data ! 0 \<noteq> CHR ''*'' then readBufferedTelnetCommand data
      else
        (let i = scan_lf data 1
         in if i < length data then
              (if data ! (i - 1) \<noteq> CR then Inl (protocolError ''invalid multibulk length'')
               else
                 (case slice data 1 (int i - 1) of
                    None \<Rightarrow> Inl panic
                  | Some count \<Rightarrow>
                      (case ParseInt count of
                         None \<Rightarrow> Inl (protocolError ''invalid multibulk length'')
                       | Some n \<Rightarrow>
                           if n \<le> 0 then Inr (take (i + 1) data, [], False)
                           else readBulks data n 0 (int i + 1) [])))
            else Inr ([], [], False)))"

text \<open>
  A bulk as the wire carries it, \<^verbatim>\<open>$<len>\r\n<bytes>\r\n\<close>, given by the text of its
  length field and its bytes; it is well formed when \<^verbatim>\<open>ParseUint\<close> reads the field as
  the number of the bytes.
\<close>

definition bulk_bytes :: "string \<times> string \<Rightarrow> string" where
  "bulk_bytes b = ''$'' @ fst b @ CRLF @ snd b @ CRLF"

definition well_formed_bulk :: "string \<times> string \<Rightarrow> bool" where
  "well_formed_bulk b = (ParseUint (fst b) = Some (int (length (snd b))))"

section \<open>The command reader\<close>

text \<open>
  \<^verbatim>\<open>CommandReader\<close>: \<open>rd\<close> is the byte source (a connection or the log file), given by
  the deliveries it still holds, in order; \<open>buf\<close> is the pending data and \<open>copied\<close> the
  flag of the source. The scratch array \<^verbatim>\<open>rbuf\<close> of \<open>rbuf_size\<close> bytes is where each
  \<^verbatim>\<open>Read\<close> of the source lands. \<open>buf\<close> is kept by value. In the source it is a slice
  of \<^verbatim>\<open>rbuf\<close> from a read into an empty buffer on, and \<^verbatim>\<open>copied\<close> is false for as long;
  the block under \<^verbatim>\<open>len(rd.buf) > 0 && !rd.copied\<close> moves the pending bytes to an array
  of their own before the next \<^verbatim>\<open>Read\<close> overwrites \<^verbatim>\<open>rbuf\<close>, and the arguments of a
  command are fresh strings, so no read changes bytes that are still to be parsed.
\<close>

record CommandReader =
  rd :: "string list"
  buf :: string
  copied :: bool

definition rbuf_size :: nat where
  "rbuf_size = 64 * 1024"

text \<open>
  \<^verbatim>\<open>rd.rd.Read(rd.rbuf)\<close>: the next delivery of the source, at most \<open>rbuf_size\<close> bytes of
  it (the rest stays with the source), or \<^verbatim>\<open>io.EOF\<close> (\<open>None\<close>) when nothing is left.
\<close>

definition source_Read :: "string list \<Rightarrow> (string \<times> string list) option" where
  "source_Read src =
     (case src of
        [] \<Rightarrow> None
      | c # cs \<Rightarrow>
          if length c \<le> rbuf_size then Some (c, cs)
          else Some (take rbuf_size c, drop rbuf_size c # cs))"

text \<open>
  The same function with the size compared on \<open>int\<close>, as the code equation: a
  comparison against the numeral \<open>rbuf_size\<close> on \<open>nat\<close> counts it up in evaluation.
\<close>

lemma source_Read_code [code]:
  "source_Read src =
     (case src of
        [] \<Rightarrow> None
      | c # cs \<Rightarrow>
          if int (length c) \<le> 65536 then Some (c, cs)
          else Some (take rbuf_size c, drop rbuf_size c # cs))"
  by (simp add: source_Read_def rbuf_size_def split: list.split)

text \<open>
  The first block of \<^verbatim>\<open>ReadCommand\<close>, under \<^verbatim>\<open>len(rd.buf) > 0\<close>: \<open>Some\<close> is what it
  returns, with the reader as it leaves it, and \<open>None\<close> is the fall through to the
  read. The telnet flag of the parser is not used (\<^verbatim>\<open>telnet = telnet\<close>).
\<close>

definition buffered :: "CommandReader \<Rightarrow> (parsed \<times> CommandReader) option" where
  "buffered r =
     (if length (buf r) > 0 then
        (case readBufferedCommand (buf r) of
           Inl err \<Rightarrow> Some (Inl err, r)
         | Inr (raw, args, telnet) \<Rightarrow>
             if length raw = length (buf r) then Some (Inr (raw, args, True), r\<lparr>buf := []\<rparr>)
             else if length raw > 0 then
               Some (Inr (raw, args, copied r), r\<lparr>buf := drop (length raw) (buf r)\<rparr>)
             else None)
      else None)"

text \<open>The copy before the read: only the flag changes in a model that keeps \<open>buf\<close> by value.\<close>

definition own_buffer :: "CommandReader \<Rightarrow> CommandReader" where
  "own_buffer r = (if length (buf r) > 0 \<and> \<not> copied r then r\<lparr>copied := True\<rparr> else r)"

text \<open>The bytes of one \<^verbatim>\<open>Read\<close> become the buffer, or are appended to it.\<close>

definition fill :: "CommandReader \<Rightarrow> string \<Rightarrow> string list \<Rightarrow> CommandReader" where
  "fill r bytes rest =
     (if length (buf r) = 0 then r\<lparr>rd := rest, buf := bytes, copied := False\<rparr>
      else r\<lparr>rd := rest, buf := buf r @ bytes, copied := True\<rparr>)"

definition pending :: "string list \<Rightarrow> nat" where
  "pending src = sum_list (map (\<lambda>c. length c + 1) src)"

lemma source_Read_pending:
  "source_Read src = Some (bytes, rest) \<Longrightarrow> pending rest < pending src"
  by (auto simp: source_Read_def pending_def rbuf_size_def split: list.splits if_splits)

lemma rd_own_buffer [simp]: "rd (own_buffer r) = rd r"
  by (simp add: own_buffer_def)

lemma buf_own_buffer [simp]: "buf (own_buffer r) = buf r"
  by (simp add: own_buffer_def)

lemma rd_fill [simp]: "rd (fill r bytes rest) = rest"
  by (simp add: fill_def)

lemma buf_fill [simp]: "buf (fill r bytes rest) = buf r @ bytes"
  by (simp add: fill_def)

text \<open>
  \<^verbatim>\<open>ReadCommand\<close> returns Go's \<^verbatim>\<open>(raw, args, flush, err)\<close> and leaves the reader
  changed; the model returns both. The recursion is the source's own
  (\<^verbatim>\<open>return rd.ReadCommand()\<close>).
\<close>

function ReadCommand :: "CommandReader \<Rightarrow> parsed \<times> CommandReader" where
  "ReadCommand r =
     (case buffered r of
        Some res \<Rightarrow> res
      | None \<Rightarrow>
          (case source_Read (rd (own_buffer r)) of
             None \<Rightarrow> (Inl EOF, own_buffer r)
           | Some (bytes, rest) \<Rightarrow> ReadCommand (fill (own_buffer r) bytes rest)))"
  by pat_completeness auto
termination
  by (relation "measure (\<lambda>r. pending (rd r))") (auto dest: source_Read_pending)

declare ReadCommand.simps [simp del]

definition reader_size :: "CommandReader \<Rightarrow> nat" where
  "reader_size r = length (buf r) + pending (rd r)"

lemma source_Read_size:
  "source_Read src = Some (bytes, rest) \<Longrightarrow> length bytes + pending rest \<le> pending src"
  by (auto simp: source_Read_def pending_def split: list.splits if_splits)

lemma buffered_Some_size:
  "buffered r = Some (Inr x, r') \<Longrightarrow> reader_size r' < reader_size r"
  by (auto simp: buffered_def reader_size_def split: if_splits sum.splits)

text \<open>A command returned by \<^verbatim>\<open>ReadCommand\<close> has used up bytes of the reader.\<close>

lemma ReadCommand_size: "ReadCommand r = (Inr x, r') \<Longrightarrow> reader_size r' < reader_size r"
proof (induction r rule: ReadCommand.induct)
  case (1 r)
  show ?case
  proof (cases "buffered r")
    case (Some res)
    then show ?thesis using "1.prems" buffered_Some_size [of r x r']
      by (simp add: ReadCommand.simps [of r])
  next
    case None
    show ?thesis
    proof (cases "source_Read (rd (own_buffer r))")
      case n: None
      then show ?thesis using "1.prems" None by (simp add: ReadCommand.simps [of r])
    next
      case (Some br)
      obtain bytes rest where br: "br = (bytes, rest)" by (cases br)
      have "ReadCommand (fill (own_buffer r) bytes rest) = (Inr x, r')"
        using "1.prems" None Some br by (simp add: ReadCommand.simps [of r])
      then have "reader_size r' < reader_size (fill (own_buffer r) bytes rest)"
        using "1.IH" [OF None Some [unfolded br] refl] by simp
      also have "\<dots> \<le> reader_size r"
        using source_Read_size [OF Some [unfolded br]] by (simp add: reader_size_def)
      finally show ?thesis .
    qed
  qed
qed

text \<open>A reader as \<^verbatim>\<open>Start\<close> and \<^verbatim>\<open>handleConn\<close> create it, on a source.\<close>

definition NewReader :: "string list \<Rightarrow> CommandReader" where
  "NewReader src = \<lparr>rd = src, buf = [], copied = False\<rparr>"

text \<open>
  The commands a caller gets from a reader when it calls \<^verbatim>\<open>ReadCommand\<close> until the
  first error, as both loops of the server do: the argument lists in order, and the
  error that ends the loop.
\<close>

function decode_all :: "CommandReader \<Rightarrow> string list list \<times> error" where
  "decode_all r =
     (case ReadCommand r of
        (Inl err, r') \<Rightarrow> ([], err)
      | (Inr (raw, args, flush), r') \<Rightarrow>
          (case decode_all r' of (cmds, err) \<Rightarrow> (args # cmds, err)))"
  by pat_completeness auto
termination
  by (relation "measure reader_size") (auto dest: ReadCommand_size [OF sym])

declare decode_all.simps [simp del]

text \<open>
  What a reader has still to parse: its buffer, then everything its source will
  deliver. \<open>parse_stream\<close> is the parser run over such a byte sequence in one piece: it
  cuts one command after the other off its front until the parser fails or needs more
  bytes than there are, which is how a reader ends at \<^verbatim>\<open>io.EOF\<close>.
\<close>

definition stream :: "CommandReader \<Rightarrow> string" where
  "stream r = buf r @ concat (rd r)"

function parse_stream :: "string \<Rightarrow> string list list \<times> error" where
  "parse_stream s =
     (if s = [] then ([], EOF)
      else
        (case readBufferedCommand s of
           Inl err \<Rightarrow> ([], err)
         | Inr (raw, args, telnet) \<Rightarrow>
             if raw = [] then ([], EOF)
             else (case parse_stream (drop (length raw) s) of (cmds, err) \<Rightarrow> (args # cmds, err))))"
  by pat_completeness auto
termination
  by (relation "measure length") auto

declare parse_stream.simps [simp del]

section \<open>The server\<close>

text \<open>
  \<^verbatim>\<open>Server\<close>: the keyspace \<^verbatim>\<open>keys\<close> (a B-tree of \<^verbatim>\<open>Key{Name, Value}\<close> ordered by name,
  modelled as the map from names to values it represents), the staging buffer
  \<^verbatim>\<open>aofbuf\<close> and the contents of the log file \<^verbatim>\<open>aof\<close>. The mutexes \<^verbatim>\<open>mu\<close> and
  \<^verbatim>\<open>aofmu\<close> are modelled by the history of the operations performed on them, one
  connection at a time. The table \<^verbatim>\<open>commands\<close> is filled by \<^verbatim>\<open>commandTable\<close> at
  startup and only read afterwards; it is carried beside this record, since the
  handlers it holds work on the record.
\<close>

datatype lock_op = Lock | Unlock | RLock | RUnlock

record 'v Server =
  keys :: "string \<rightharpoonup> 'v"
  aofbuf :: string
  aof :: string
  mu :: "lock_op list"
  aofmu :: "lock_op list"

definition GetKey :: "'v Server \<Rightarrow> string \<Rightarrow> 'v option" where
  "GetKey s name = keys s name"

definition SetKey :: "'v Server \<Rightarrow> string \<Rightarrow> 'v \<Rightarrow> 'v Server" where
  "SetKey s name val = s\<lparr>keys := (keys s)(name \<mapsto> val)\<rparr>"

definition DelKey :: "'v Server \<Rightarrow> string \<Rightarrow> 'v option \<times> 'v Server" where
  "DelKey s name = (keys s name, s\<lparr>keys := (keys s)(name := None)\<rparr>)"

text \<open>
  The reply sink of a client: the \<^verbatim>\<open>bufio.Writer\<close> on the connection, with the bytes
  it holds and the bytes it has passed on to the connection, or \<^verbatim>\<open>ioutil.Discard\<close>
  during replay. Writes to the connection are taken to succeed. A \<^verbatim>\<open>bufio.Writer\<close>
  also passes its bytes on when its own buffer is full; the model passes them on at
  \<^verbatim>\<open>Flush\<close> only, which changes when bytes reach the connection and not which bytes.
\<close>

datatype Writer = Discard | Buffered string string

fun wr_Write :: "Writer \<Rightarrow> string \<Rightarrow> Writer" where
  "wr_Write Discard bytes = Discard"
| "wr_Write (Buffered held sent) bytes = Buffered (held @ bytes) sent"

fun wr_Flush :: "Writer \<Rightarrow> Writer" where
  "wr_Flush Discard = Discard"
| "wr_Flush (Buffered held sent) = Buffered [] (sent @ held)"

text \<open>
  \<^verbatim>\<open>Client\<close>, as \<^verbatim>\<open>Start\<close> and \<^verbatim>\<open>handleConn\<close> use it: the fields \<^verbatim>\<open>wr\<close>, \<^verbatim>\<open>args\<close> and
  \<^verbatim>\<open>raw\<close>. Its field \<^verbatim>\<open>server\<close> points to the one server, which the model passes along.
\<close>

record Client =
  wr :: Writer
  args :: "string list"
  raw :: string

text \<open>
  Modelled from the spec: the methods \<^verbatim>\<open>ReplyError\<close> and \<^verbatim>\<open>ReplyString\<close> of \<^verbatim>\<open>Client\<close>
  are not in \<^verbatim>\<open>server.go\<close>. By the spec's section 6 a fault is answered with
  \<^verbatim>\<open>-ERR <message>\<close> and \<^verbatim>\<open>ping\<close> and \<^verbatim>\<open>quit\<close> with \<^verbatim>\<open>+PONG\<close> and \<^verbatim>\<open>+OK\<close>, in the
  simple-string and error reply conventions (a line ended by CRLF), written to the
  client's reply sink and nowhere else.
\<close>

definition ReplyError :: "Client \<Rightarrow> string \<Rightarrow> Client" where
  "ReplyError c msg = c\<lparr>wr := wr_Write (wr c) (''-ERR '' @ msg @ CRLF)\<rparr>"

definition ReplyString :: "Client \<Rightarrow> string \<Rightarrow> Client" where
  "ReplyString c msg = c\<lparr>wr := wr_Write (wr c) (''+'' @ msg @ CRLF)\<rparr>"

subsection \<open>The command table\<close>

text \<open>
  \<^verbatim>\<open>Command\<close>. A handler \<^verbatim>\<open>Func\<close> gets the client and, through it, the server, and
  may change both.
\<close>

record 'v Command =
  Write :: bool
  Read :: bool
  Func :: "Client \<times> 'v Server \<Rightarrow> Client \<times> 'v Server"

text \<open>The loop of \<^verbatim>\<open>register\<close> over the bytes of \<^verbatim>\<open>opts\<close>.\<close>

fun register_opts :: "string \<Rightarrow> 'v Command \<Rightarrow> 'v Command" where
  "register_opts [] cmd = cmd"
| "register_opts (c # opts) cmd =
     register_opts opts
       (if c = CHR ''r'' then (if \<not> Write cmd then cmd\<lparr>Read := True\<rparr> else cmd)
        else if c = CHR ''w'' then cmd\<lparr>Write := True, Read := False\<rparr>
        else cmd)"

definition register ::
  "(string \<rightharpoonup> 'v Command) \<Rightarrow> string \<Rightarrow> (Client \<times> 'v Server \<Rightarrow> Client \<times> 'v Server) \<Rightarrow> string
     \<Rightarrow> (string \<rightharpoonup> 'v Command)"
where
  "register commands commandName f opts =
     commands(commandName \<mapsto> register_opts opts \<lparr>Write = False, Read = False, Func = f\<rparr>)"

text \<open>
  \<^verbatim>\<open>commandTable\<close>, on the empty table of \<^verbatim>\<open>Start\<close>. The three handlers are not in
  \<^verbatim>\<open>server.go\<close> and are parameters.
\<close>

definition commandTable ::
  "(Client \<times> 'v Server \<Rightarrow> Client \<times> 'v Server) \<Rightarrow> (Client \<times> 'v Server \<Rightarrow> Client \<times> 'v Server)
     \<Rightarrow> (Client \<times> 'v Server \<Rightarrow> Client \<times> 'v Server) \<Rightarrow> (string \<rightharpoonup> 'v Command)"
where
  "commandTable getCommand setCommand delCommand =
     register (register (register Map.empty ''get'' getCommand ''r'') ''set'' setCommand ''w'')
       ''del'' delCommand ''w''"

text \<open>
  Modelled from the spec: the handler \<^verbatim>\<open>setCommand\<close> is not in \<^verbatim>\<open>server.go\<close>. By the
  spec it is a plain keyspace write: \<^verbatim>\<open>set name value\<close> stores the value under the
  name through \<^verbatim>\<open>SetKey\<close> and answers \<^verbatim>\<open>+OK\<close>. The spec does not say what another
  number of arguments does; the model answers with an error and leaves the keyspace.
\<close>

definition setCommand :: "Client \<times> string Server \<Rightarrow> Client \<times> string Server" where
  "setCommand cs =
     (case cs of (c, s) \<Rightarrow>
        if length (args c) = 3 then (ReplyString c ''OK'', SetKey s (args c ! 1) (args c ! 2))
        else (ReplyError c ''wrong number of arguments'', s))"

subsection \<open>The connection handler\<close>

text \<open>
  \<^verbatim>\<open>strings.ToLower\<close> of Go's standard library. A string of ASCII bytes only takes
  the fast path: the letters A to Z are mapped to a to z. Any other string goes through
  \<^verbatim>\<open>strings.Map(unicode.ToLower, s)\<close>, which decodes UTF-8, maps each code point by
  the Unicode tables and replaces invalid bytes; the tables are not part of the server,
  so that mapping is the parameter \<open>unicode_lower\<close>, and every statement below holds
  for each value of it.
\<close>

definition ascii_lower :: "char \<Rightarrow> char" where
  "ascii_lower c =
     (if 65 \<le> (of_char c :: nat) \<and> (of_char c :: nat) \<le> 90
      then char_of ((of_char c :: nat) + 32) else c)"

definition ToLower :: "(string \<Rightarrow> string) \<Rightarrow> string \<Rightarrow> string" where
  "ToLower unicode_lower s =
     (if list_all (\<lambda>c. (of_char c :: nat) < 128) s then map ascii_lower s
      else unicode_lower s)"

text \<open>
  The \<^verbatim>\<open>default\<close> branch of the switch in \<^verbatim>\<open>handleConn\<close>: the lookup of the lowered
  name, the lock for the command's class, the handler, and for a write command the
  append of the raw bytes to the staging buffer before the unlock.
\<close>

definition dispatch ::
  "(string \<rightharpoonup> 'v Command) \<Rightarrow> string \<Rightarrow> Client \<Rightarrow> 'v Server \<Rightarrow> Client \<times> 'v Server"
where
  "dispatch commands command c server =
     (case commands command of
        Some cmd \<Rightarrow>
          (let s1 = (if Write cmd then server\<lparr>mu := mu server @ [Lock]\<rparr>
                     else if Read cmd then server\<lparr>mu := mu server @ [RLock]\<rparr>
                     else server)
           in case Func cmd (c, s1) of
                (c2, s2) \<Rightarrow>
                  (c2,
                   if Write cmd then s2\<lparr>aofbuf := aofbuf s2 @ raw c2, mu := mu s2 @ [Unlock]\<rparr>
                   else if Read cmd then s2\<lparr>mu := mu s2 @ [RUnlock]\<rparr>
                   else s2))
      | None \<Rightarrow>
          (ReplyError c (''unknown command '' @ [SQUOTE] @ args c ! 0 @ [SQUOTE]), server))"

text \<open>
  The block under \<^verbatim>\<open>if flush\<close>: the staged bytes, if any, are taken out under \<^verbatim>\<open>mu\<close>
  and appended to the log file under \<^verbatim>\<open>aofmu\<close>, then the reply sink is flushed. The
  write to the file and the flush are taken to succeed.
\<close>

definition flush_point :: "Client \<Rightarrow> 'v Server \<Rightarrow> Client \<times> 'v Server" where
  "flush_point c server =
     (let s1 = server\<lparr>mu := mu server @ [Lock]\<rparr>;
          s2 = (if length (aofbuf s1) > 0 then
                  s1\<lparr>aofbuf := [], mu := mu s1 @ [Unlock],
                     aofmu := aofmu s1 @ [Lock, Unlock], aof := aof s1 @ aofbuf s1\<rparr>
                else s1\<lparr>mu := mu s1 @ [Unlock]\<rparr>)
      in (c\<lparr>wr := wr_Flush (wr c)\<rparr>, s2))"

text \<open>
  How \<^verbatim>\<open>handleConn\<close> ends: it returns, and the deferred calls flush the reply sink and
  close the connection, or a panic ends the process.
\<close>

datatype conn_end = Closed | Crashed

text \<open>
  The \<^verbatim>\<open>for\<close> loop of \<^verbatim>\<open>handleConn\<close>; its first argument is the parameter of
  \<open>ToLower\<close>.
\<close>

function handleConn_loop ::
  "(string \<Rightarrow> string) \<Rightarrow> (string \<rightharpoonup> 'v Command) \<Rightarrow> CommandReader \<Rightarrow> Client \<Rightarrow> 'v Server
     \<Rightarrow> conn_end \<times> Client \<times> 'v Server"
where
  "handleConn_loop unicode_lower commands r c server =
     (case ReadCommand r of
        (Inl err, r') \<Rightarrow>
          (case err of
             protocolError msg \<Rightarrow> (Closed, ReplyError c (Error msg), server)
           | EOF \<Rightarrow> (Closed, c, server)
           | panic \<Rightarrow> (Crashed, c, server))
      | (Inr (raw_bytes, arguments, flush), r') \<Rightarrow>
          if length arguments = 0 then handleConn_loop unicode_lower commands r' c server
          else
            (let c1 = c\<lparr>args := arguments, raw := raw_bytes\<rparr>;
                 command = ToLower unicode_lower (arguments ! 0)
             in if command = ''quit'' then (Closed, ReplyString c1 ''OK'', server)
                else
                  (case (if command = ''ping'' then (ReplyString c1 ''PONG'', server)
                         else dispatch commands command c1 server) of
                     (c2, s2) \<Rightarrow>
                       if flush then
                         (case flush_point c2 s2 of
                            (c3, s3) \<Rightarrow> handleConn_loop unicode_lower commands r' c3 s3)
                       else handleConn_loop unicode_lower commands r' c2 s2)))"
  by pat_completeness auto
termination
  by (relation "measure (\<lambda>(unicode_lower, commands, r, c, server). reader_size r)")
    (auto dest: ReadCommand_size [OF sym])

declare handleConn_loop.simps [simp del]

text \<open>
  \<^verbatim>\<open>handleConn\<close> on a connection that delivers \<open>conn\<close>: the loop on a fresh reader and
  client, then the deferred \<^verbatim>\<open>wr.Flush()\<close> (the deferred \<^verbatim>\<open>conn.Close()\<close> is the
  result \<open>Closed\<close>).
\<close>

definition handleConn ::
  "(string \<Rightarrow> string) \<Rightarrow> (string \<rightharpoonup> 'v Command) \<Rightarrow> string list \<Rightarrow> 'v Server \<Rightarrow> conn_end \<times> Client \<times> 'v Server"
where
  "handleConn unicode_lower commands conn server =
     (case handleConn_loop unicode_lower commands (NewReader conn)
             \<lparr>wr = Buffered [] [], args = [], raw = []\<rparr> server of
        (e, c, s) \<Rightarrow> (e, c\<lparr>wr := wr_Flush (wr c)\<rparr>, s))"

subsection \<open>Replay at startup\<close>

text \<open>
  How the replay of \<^verbatim>\<open>Start\<close> ends: the log is loaded and the count of commands is
  reported, \<^verbatim>\<open>log.Fatalf\<close> ends the process on a parse fault, or a panic does.
\<close>

datatype replay_end = Loaded nat | Fatal string | ReplayPanic

text \<open>
  The replay loop of \<^verbatim>\<open>Start\<close>. It looks \<^verbatim>\<open>args[0]\<close> up as it stands, and it
  indexes \<^verbatim>\<open>args\<close> without a check of its length.
\<close>

function replay_loop ::
  "(string \<rightharpoonup> 'v Command) \<Rightarrow> CommandReader \<Rightarrow> Client \<Rightarrow> 'v Server \<Rightarrow> nat
     \<Rightarrow> replay_end \<times> 'v Server"
where
  "replay_loop commands r c server n_read =
     (case ReadCommand r of
        (Inl err, r') \<Rightarrow>
          (case err of
             EOF \<Rightarrow> (Loaded n_read, server)
           | protocolError msg \<Rightarrow> (Fatal (''# '' @ Error msg), server)
           | panic \<Rightarrow> (ReplayPanic, server))
      | (Inr (raw_bytes, arguments, flush), r') \<Rightarrow>
          (let c1 = c\<lparr>args := arguments, raw := raw_bytes\<rparr>
           in if length arguments = 0 then (ReplayPanic, server)
              else
                (case commands (arguments ! 0) of
                   Some cmd \<Rightarrow>
                     (case Func cmd (c1, server) of
                        (c2, s2) \<Rightarrow> replay_loop commands r' c2 s2 (n_read + 1))
                 | None \<Rightarrow>
                     replay_loop commands r'
                       (ReplyError c1 (''unknown command '' @ [SQUOTE] @ arguments ! 0 @ [SQUOTE]))
                       server (n_read + 1))))"
  by pat_completeness auto
termination
  by (relation "measure (\<lambda>(commands, r, c, server, n_read). reader_size r)")
    (auto dest: ReadCommand_size [OF sym])

declare replay_loop.simps [simp del]

text \<open>
  The log file as a byte source: its contents in reads of at most \<open>rbuf_size\<close> bytes,
  then \<^verbatim>\<open>io.EOF\<close>.
\<close>

definition file_source :: "string \<Rightarrow> string list" where
  "file_source contents = (if contents = [] then [] else [contents])"

text \<open>
  \<^verbatim>\<open>Start\<close> up to the listener, on the table that \<^verbatim>\<open>commandTable\<close> has filled: a
  server with an empty keyspace, and the replay of the log file through a client that
  discards replies.
\<close>

definition Start :: "(string \<rightharpoonup> 'v Command) \<Rightarrow> string \<Rightarrow> replay_end \<times> 'v Server" where
  "Start commands log_file =
     replay_loop commands (NewReader (file_source log_file))
       \<lparr>wr = Discard, args = [], raw = []\<rparr>
       \<lparr>keys = Map.empty, aofbuf = [], aof = log_file, mu = [], aofmu = []\<rparr> 0"

section \<open>Wrap-around of the declared bulk length\<close>

text \<open>
  \<open>int64\<close> on values in and out of range, and the two facts the parser's slices rest
  on: once the length test \<^verbatim>\<open>len(data)-i < int(n2+2)\<close> has passed, the slice
  \<^verbatim>\<open>data[i:i+int(n2)]\<close> has its upper bound at or above the lower one only for a
  declared length below \<open>2^63 - 2\<close> (\<open>bulk_small\<close>), and then both that bound and the
  next \<open>i\<close> are within the data (\<open>bulk_bounds\<close>). For every greater length the bound
  is below \<open>i\<close>, and the slice panics.
\<close>

lemma int64_id: "- (2 ^ 63) \<le> x \<Longrightarrow> x < 2 ^ 63 \<Longrightarrow> int64 x = x"
  by (simp add: int64_def)

lemma int64_upper: "int64 x < 2 ^ 63"
  unfolding int64_def using pos_mod_bound [of "2 ^ 64" "x + 2 ^ 63"] by simp

lemma int64_le: "- (2 ^ 63) \<le> x \<Longrightarrow> int64 x \<le> x"
  unfolding int64_def using zmod_le_nonneg_dividend [of "x + 2 ^ 63" "2 ^ 64"] by simp

lemma int64_wrap: "2 ^ 63 \<le> x \<Longrightarrow> x < 2 ^ 64 + 2 ^ 63 \<Longrightarrow> int64 x = x - 2 ^ 64"
proof -
  assume a: "2 ^ 63 \<le> x" "x < 2 ^ 64 + 2 ^ 63"
  have "(x + 2 ^ 63) mod 2 ^ 64 = x + 2 ^ 63 - 2 ^ 64"
    by (rule int_mod_pos_eq [where q = 1]) (use a in simp_all)
  then show ?thesis by (simp add: int64_def)
qed

lemma int64_uint64 [simp]: "int64 (uint64 x) = int64 x"
  by (simp add: int64_def uint64_def mod_add_left_eq)

lemma bulk_small:
  assumes n2: "0 \<le> n2" "n2 < 2 ^ 64"
    and i1: "2 \<le> i1"
    and ok: "i1 \<le> int64 (i1 + int64 n2)"
  shows "n2 < 2 ^ 63 - 2"
proof (rule ccontr)
  assume "\<not> n2 < 2 ^ 63 - 2"
  then have big: "2 ^ 63 - 2 \<le> n2" by simp
  show False
  proof (cases "n2 < 2 ^ 63")
    case True
    then have e: "int64 n2 = n2" using n2 by (simp add: int64_id)
    show False
    proof (cases "i1 < 2 ^ 63")
      case True
      have "int64 (i1 + n2) = i1 + n2 - 2 ^ 64"
        using big True i1 \<open>n2 < 2 ^ 63\<close> by (intro int64_wrap) simp_all
      then show False using ok e True \<open>n2 < 2 ^ 63\<close> by simp
    next
      case False
      then show False using ok int64_upper [of "i1 + int64 n2"] by simp
    qed
  next
    case False
    then have e: "int64 n2 = n2 - 2 ^ 64" using n2 by (intro int64_wrap) simp_all
    let ?x = "i1 + (n2 - 2 ^ 64)"
    have lo: "- (2 ^ 63) \<le> ?x" using False i1 by simp
    have "int64 ?x \<le> ?x" using lo by (rule int64_le)
    then show False using ok e n2 by simp
  qed
qed

lemma bulk_bounds:
  assumes n2: "0 \<le> n2" "n2 < 2 ^ 64"
    and i1: "2 \<le> i1"
    and enough: "\<not> L - i1 < int64 (uint64 (n2 + 2))"
    and ok: "i1 \<le> int64 (i1 + int64 n2)"
  shows "int64 (i1 + int64 n2) \<le> L" and "int64 (i1 + int64 (uint64 (n2 + 2))) \<le> L"
proof -
  have small: "n2 < 2 ^ 63 - 2" using n2 i1 ok by (rule bulk_small)
  have e1: "int64 n2 = n2" using n2 small by (simp add: int64_id)
  have e2: "int64 (n2 + 2) = n2 + 2" using n2 small by (simp add: int64_id)
  have room: "i1 + n2 + 2 \<le> L" using enough e2 by simp
  have "int64 (i1 + n2) \<le> i1 + n2" using n2 i1 by (intro int64_le) simp
  then show "int64 (i1 + int64 n2) \<le> L" using e1 room by simp
  have "int64 (i1 + (n2 + 2)) \<le> i1 + (n2 + 2)" using n2 i1 by (intro int64_le) simp
  then show "int64 (i1 + int64 (uint64 (n2 + 2))) \<le> L" using e2 room by simp
qed

lemma digits_value_nonneg_aux:
  "0 \<le> v \<Longrightarrow> list_all is_digit s \<Longrightarrow>
   0 \<le> foldl (\<lambda>v c. 10 * v + (int (of_char c) - 48)) v s"
  by (induction s arbitrary: v) (auto simp: is_digit_def)

lemma ParseUint_range: "ParseUint s = Some v \<Longrightarrow> 0 \<le> v \<and> v < 2 ^ 64"
  using digits_value_nonneg_aux [of 0 s]
  by (auto simp: ParseUint_def parse_digits_def digits_value_def split: option.splits if_splits)

section \<open>The parser on a buffer that has grown\<close>

text \<open>
  When bytes are appended to a buffer, the parser's answer stays what it was, unless
  it was need-more-data: each of its loops stops at the first LF, every index it reads
  lies before the end of the shorter buffer, and the length test can only pass more
  easily.
\<close>

lemma need_more_simps [simp]:
  "need_more (Inl e) = False"
  "need_more (Inr (rw, av, t)) = (rw = [])"
  by (simp_all add: need_more_def)

lemma scan_lf_ge: "i \<le> scan_lf data i"
proof (induction data i rule: scan_lf.induct)
  case (1 data i)
  then show ?case by (subst scan_lf.simps) auto
qed

lemma scan_lf_le: "i \<le> length data \<Longrightarrow> scan_lf data i \<le> length data"
proof (induction data i rule: scan_lf.induct)
  case (1 data i)
  then show ?case by (subst scan_lf.simps) auto
qed

lemma scan_lf_LF: "scan_lf data i < length data \<Longrightarrow> data ! scan_lf data i = LF"
proof (induction data i rule: scan_lf.induct)
  case (1 data i)
  from "1.prems" have "i < length data"
    using scan_lf_ge [of i data] by simp
  then show ?case using 1 by (subst scan_lf.simps, subst (asm) (3) scan_lf.simps) (auto split: if_splits)
qed

lemma scan_lf_append: "scan_lf p i < length p \<Longrightarrow> scan_lf (p @ q) i = scan_lf p i"
proof (induction p i rule: scan_lf.induct)
  case (1 p i)
  from "1.prems" have i: "i < length p"
    using scan_lf_ge [of i p] by simp
  show ?case
  proof (cases "p ! i = LF")
    case True
    then show ?thesis using i
      by (subst scan_lf.simps, subst (2) scan_lf.simps) (simp add: nth_append)
  next
    case False
    then have "scan_lf p i = scan_lf p (i + 1)" using i by (subst scan_lf.simps) simp
    moreover have "scan_lf (p @ q) i = scan_lf (p @ q) (i + 1)"
      using i False by (subst scan_lf.simps) (simp add: nth_append)
    ultimately show ?thesis using "1.IH" [OF i False] "1.prems" by simp
  qed
qed

lemma slice_append: "hi \<le> int (length p) \<Longrightarrow> slice (p @ q) lo hi = slice p lo hi"
  by (auto simp: slice_def)

lemma slice_length: "slice data lo hi = Some s \<Longrightarrow> length s \<le> length data"
  by (auto simp: slice_def split: if_splits)

lemma slice_Some_bounds: "slice data lo hi = Some s \<Longrightarrow> 0 \<le> lo \<and> lo \<le> hi \<and> hi \<le> int (length data)"
  by (auto simp: slice_def split: if_splits)

lemma slice_None_append:
  "slice p lo hi = None \<Longrightarrow> 0 \<le> lo \<Longrightarrow> (lo \<le> hi \<Longrightarrow> hi \<le> int (length p)) \<Longrightarrow>
   slice (p @ q) lo hi = None"
  by (auto simp: slice_def split: if_splits)

lemma readBulks_append:
  "i \<le> int (length p) \<Longrightarrow> \<not> need_more (readBulks p n j i av) \<Longrightarrow>
   readBulks (p @ q) n j i av = readBulks p n j i av"
proof (induction p n j i av rule: readBulks.induct)
  case (1 data n j i av)
  note L = readBulks.simps [of data n j i av]
    and R = readBulks.simps [of "data @ q" n j i av]
  show ?case
  proof (cases "j < n \<and> 0 \<le> i \<and> i < int (length data) \<and> data ! nat i = CHR ''$''")
    case False
    then show ?thesis using "1.prems" by (auto simp: L R nth_append nat_less_iff)
  next
    case True
    define k where "k = scan_lf data (nat i)"
    have ni: "nat i < length data" using True by (simp add: nat_less_iff)
    have i_k: "nat i \<le> k" unfolding k_def by (rule scan_lf_ge)
    show ?thesis
    proof (cases "k < length data")
      case False
      then have "k = length data"
        using scan_lf_le [of "nat i" data] ni by (simp add: k_def)
      then have "readBulks data n j i av = readBulks data n (j + 1) (int (length data)) av"
        using True by (simp add: L k_def)
      then have "need_more (readBulks data n j i av)"
        by (simp add: readBulks.simps [of data n "j + 1" "int (length data)" av])
      then show ?thesis using "1.prems" by simp
    next
      case k: True
      have kq: "scan_lf (data @ q) (nat i) = k"
        using k by (simp add: k_def scan_lf_append)
      have "data ! k = LF" using k unfolding k_def by (rule scan_lf_LF)
      then have "k \<noteq> nat i" using True by auto
      then have ik: "nat i < k" using i_k by simp
      have nth: "(data @ q) ! nat i = data ! nat i" "(data @ q) ! (k - 1) = data ! (k - 1)"
        using ni k by (simp_all add: nth_append less_imp_diff_less)
      have sl: "slice (data @ q) (i + 1) (int k - 1) = slice data (i + 1) (int k - 1)"
        using k by (intro slice_append) simp
      show ?thesis
      proof (cases "data ! (k - 1) = CR")
        case False
        then show ?thesis using True k nth kq ik
          by (simp add: L R k_def [symmetric] nat_diff_distrib')
      next
        case cr: True
        show ?thesis
        proof (cases "slice data (i + 1) (int k - 1)")
          case None
          then show ?thesis using True k nth kq ik cr sl
            by (simp add: L R k_def [symmetric] nat_diff_distrib')
        next
          case (Some field)
          show ?thesis
          proof (cases "ParseUint field")
            case None
            then show ?thesis using True k nth kq ik cr sl Some
              by (simp add: L R k_def [symmetric] nat_diff_distrib')
          next
            case n2: (Some n2)
            have rng: "0 \<le> n2" "n2 < 2 ^ 64" using ParseUint_range [OF n2] by simp_all
            define i1 where "i1 = int k + 1"
            define hi where "hi = int64 (i1 + int64 n2)"
            define i2 where "i2 = int64 (i1 + int64 (uint64 (n2 + 2)))"
            have i1: "2 \<le> i1" using ik by (simp add: i1_def)
            have unf: "readBulks data n j i av =
                (if int (length data) - i1 < int64 (uint64 (n2 + 2)) then Inr ([], [], False)
                 else case slice data i1 hi of None \<Rightarrow> Inl panic
                   | Some arg \<Rightarrow>
                       if j = n - 1 then
                         (case slice data 0 i2 of None \<Rightarrow> Inl panic
                          | Some rw \<Rightarrow> Inr (rw, av @ [arg], False))
                       else readBulks data n (j + 1) i2 (av @ [arg]))"
              using True k ik cr Some n2
              by (simp add: L k_def [symmetric] nat_diff_distrib' i1_def hi_def i2_def Let_def
                cong: option.case_cong if_cong)
            have unfq: "readBulks (data @ q) n j i av =
                (if int (length (data @ q)) - i1 < int64 (uint64 (n2 + 2)) then Inr ([], [], False)
                 else case slice (data @ q) i1 hi of None \<Rightarrow> Inl panic
                   | Some arg \<Rightarrow>
                       if j = n - 1 then
                         (case slice (data @ q) 0 i2 of None \<Rightarrow> Inl panic
                          | Some rw \<Rightarrow> Inr (rw, av @ [arg], False))
                       else readBulks (data @ q) n (j + 1) i2 (av @ [arg]))"
              using True k nth kq ik cr sl Some n2
              by (simp add: R k_def [symmetric] nat_diff_distrib' i1_def hi_def i2_def Let_def
                cong: option.case_cong if_cong)
            have enough: "\<not> int (length data) - i1 < int64 (uint64 (n2 + 2))"
              using "1.prems"(2) unfolding unf by (auto split: if_splits)
            then have enoughq: "\<not> int (length (data @ q)) - i1 < int64 (uint64 (n2 + 2))"
              by simp
            show ?thesis
            proof (cases "slice data i1 hi")
              case None
              have "slice (data @ q) i1 hi = None"
              proof (rule slice_None_append [OF None])
                show "0 \<le> i1" using i1 by simp
                show "hi \<le> int (length data)" if "i1 \<le> hi"
                  using bulk_bounds(1) [OF rng i1 enough] that by (simp add: hi_def)
              qed
              then show ?thesis unfolding unf unfq using None enough enoughq by simp
            next
              case arg: (Some arg)
              have ok: "i1 \<le> hi" "hi \<le> int (length data)"
                using slice_Some_bounds [OF arg] by simp_all
              have argq: "slice (data @ q) i1 hi = Some arg"
                using arg ok by (simp add: slice_append)
              have i2: "i2 \<le> int (length data)"
                using bulk_bounds(2) [OF rng i1 enough] ok by (simp add: hi_def i2_def)
              show ?thesis
              proof (cases "j = n - 1")
                case True
                then show ?thesis unfolding unf unfq using arg argq enough enoughq i2
                  by (simp add: slice_append)
              next
                case False
                have "\<not> need_more (readBulks data n (j + 1) i2 (av @ [arg]))"
                  using "1.prems"(2) False arg enough by (simp add: unf)
                then have "readBulks (data @ q) n (j + 1) i2 (av @ [arg])
                    = readBulks data n (j + 1) i2 (av @ [arg])"
                  using "1.IH"(1) [OF _ _ _ _ refl refl _ _ _ n2 refl _ _ refl False]
                    True k cr Some arg enough ik i2
                  by (simp add: k_def [symmetric] nat_diff_distrib' i1_def hi_def i2_def)
                then show ?thesis unfolding unf unfq using False arg argq enough enoughq
                  by simp
              qed
            qed
          qed
        qed
      qed
    qed
  qed
qed

lemma raw_of_simps [simp]: "raw_of (Inl e) = []" "raw_of (Inr (rw, av, t)) = rw"
  by (simp_all add: raw_of_def)

lemma readBulks_raw_of: "length (raw_of (readBulks p n j i av)) \<le> length p"
proof (induction p n j i av rule: readBulks.induct)
  case (1 data n j i av)
  show ?case
    using "1.IH"
    by (subst readBulks.simps) (auto simp: Let_def split: option.split dest: slice_length)
qed

lemma telnet_append:
  "\<not> need_more (readBufferedTelnetCommand p) \<Longrightarrow>
   readBufferedTelnetCommand (p @ q) = readBufferedTelnetCommand p"
proof -
  assume a: "\<not> need_more (readBufferedTelnetCommand p)"
  define k where "k = scan_lf p 1"
  have k: "k < length p"
    using a by (auto simp: readBufferedTelnetCommand_def Let_def k_def split: if_splits)
  have kp: "scan_lf p (Suc 0) = k" by (simp add: k_def)
  have kq: "scan_lf (p @ q) (Suc 0) = k" using k scan_lf_append [of p 1 q] by (simp add: k_def)
  have "1 \<le> k" unfolding k_def by (rule scan_lf_ge)
  then show ?thesis using k
    by (simp add: readBufferedTelnetCommand_def Let_def kp kq nth_append
        less_imp_diff_less cong: sum.case_cong)
qed

lemma readBulks_raw_le:
  "readBulks p n j i av = Inr (rw, a, t) \<Longrightarrow> length rw \<le> length p"
  using readBulks_raw_of [of p n j i av] by simp

lemma telnet_raw_le:
  "readBufferedTelnetCommand p = Inr (rw, a, t) \<Longrightarrow> length rw \<le> length p"
  by (auto simp: readBufferedTelnetCommand_def Let_def split: if_splits sum.splits)

lemma readBufferedCommand_append:
  assumes "p \<noteq> []" "\<not> need_more (readBufferedCommand p)"
  shows "readBufferedCommand (p @ q) = readBufferedCommand p"
proof -
  note ne = assms(1)
  then have hd: "(p @ q) ! 0 = p ! 0" by (simp add: nth_append)
  show ?thesis
  proof (cases "p ! 0 = CHR ''*''")
    case False
    then show ?thesis using ne hd assms
      by (simp add: readBufferedCommand_def telnet_append)
  next
    case star: True
    define k where "k = scan_lf p 1"
    have k: "k < length p"
      using assms ne star by (auto simp: readBufferedCommand_def Let_def k_def split: if_splits)
    have kp: "scan_lf p (Suc 0) = k" by (simp add: k_def)
    have kq: "scan_lf (p @ q) (Suc 0) = k" using k scan_lf_append [of p 1 q] by (simp add: k_def)
    have k1: "1 \<le> k" unfolding k_def by (rule scan_lf_ge)
    have sl: "slice (p @ q) 1 (int k - 1) = slice p 1 (int k - 1)"
      using k by (intro slice_append) simp
    have nth: "(p @ q) ! (k - 1) = p ! (k - 1)" using k by (simp add: nth_append less_imp_diff_less)
    show ?thesis
    proof (cases "p ! (k - 1) \<noteq> CR \<or> slice p 1 (int k - 1) = None
        \<or> (\<exists>c. slice p 1 (int k - 1) = Some c \<and> (ParseInt c = None \<or> (\<exists>n. ParseInt c = Some n \<and> n \<le> 0)))")
      case True
      then show ?thesis using ne star hd k kp kq k1 sl nth
        by (auto simp: readBufferedCommand_def Let_def)
    next
      case False
      then obtain c n where c: "p ! (k - 1) = CR" "slice p 1 (int k - 1) = Some c"
        "ParseInt c = Some n" "0 < n"
        by (cases "slice p 1 (int k - 1)"; cases "ParseInt (the (slice p 1 (int k - 1)))") auto
      have L: "readBufferedCommand p = readBulks p n 0 (int k + 1) []"
        using ne star k kp c by (simp add: readBufferedCommand_def Let_def)
      have R: "readBufferedCommand (p @ q) = readBulks (p @ q) n 0 (int k + 1) []"
        using ne star hd k kq c sl nth by (simp add: readBufferedCommand_def Let_def)
      show ?thesis unfolding L R
        using assms k by (intro readBulks_append) (simp_all add: L)
    qed
  qed
qed

lemma readBufferedCommand_raw_le:
  "readBufferedCommand p = Inr (rw, a, t) \<Longrightarrow> length rw \<le> length p"
  by (auto simp: readBufferedCommand_def Let_def split: if_splits option.splits
      dest: telnet_raw_le readBulks_raw_le)

section \<open>A reader decodes what its stream holds\<close>

lemma source_Read_concat:
  "source_Read src = Some (bytes, rest) \<Longrightarrow> bytes @ concat rest = concat src"
  by (auto simp: source_Read_def split: list.splits if_splits)

lemma source_Read_None: "source_Read src = None \<Longrightarrow> src = []"
  by (auto simp: source_Read_def split: list.splits if_splits)

lemma readBufferedCommand_Nil [simp]: "readBufferedCommand [] = Inl panic"
  by (simp add: readBufferedCommand_def)

text \<open>
  What the first block of \<^verbatim>\<open>ReadCommand\<close> returns, against the parser's answer on the
  buffer.
\<close>

lemma buffered_Inr:
  assumes "buffered r = Some (Inr (rw, av, fl), r')"
  shows "rw \<noteq> []" and "\<exists>t. readBufferedCommand (buf r) = Inr (rw, av, t)"
    and "buf r' = drop (length rw) (buf r)" and "rd r' = rd r" and "copied r' = copied r"
    and "fl = (buf r' = [] \<or> copied r')" and "length rw \<le> length (buf r)"
proof -
  from assms have ne: "buf r \<noteq> []" by (auto simp: buffered_def split: if_splits)
  from assms obtain t where t: "readBufferedCommand (buf r) = Inr (rw, av, t)"
    by (auto simp: buffered_def split: if_splits sum.splits)
  have le: "length rw \<le> length (buf r)" using t by (rule readBufferedCommand_raw_le)
  show "rw \<noteq> []" using assms t ne by (auto simp: buffered_def split: if_splits)
  show "\<exists>t. readBufferedCommand (buf r) = Inr (rw, av, t)" using t by blast
  show "buf r' = drop (length rw) (buf r)" "rd r' = rd r" "copied r' = copied r"
    using assms t ne by (auto simp: buffered_def split: if_splits)
  show "fl = (buf r' = [] \<or> copied r')"
    using assms t ne le by (auto simp: buffered_def split: if_splits)
  show "length rw \<le> length (buf r)" by (rule le)
qed

lemma buffered_Inl:
  "buffered r = Some (Inl e, r') \<Longrightarrow> buf r \<noteq> [] \<and> readBufferedCommand (buf r) = Inl e"
  by (auto simp: buffered_def split: if_splits sum.splits)

lemma buffered_None:
  "buffered r = None \<Longrightarrow> buf r = [] \<or> need_more (readBufferedCommand (buf r))"
  by (auto simp: buffered_def need_more_def split: if_splits sum.splits)

text \<open>
  What \<^verbatim>\<open>ReadCommand\<close> returns, against the parser's answer on the whole stream of the
  reader: a command is the one the parser cuts off the stream, and the stream of the
  reader is the rest afterwards; an error is the parser's error on the stream, or
  \<^verbatim>\<open>io.EOF\<close> when the stream is empty or too short for a command.
\<close>

lemma ReadCommand_Inr:
  "ReadCommand r = (Inr (rw, av, fl), r') \<Longrightarrow>
   rw \<noteq> [] \<and> (\<exists>t. readBufferedCommand (stream r) = Inr (rw, av, t))
   \<and> stream r' = drop (length rw) (stream r) \<and> fl = (buf r' = [] \<or> copied r')"
proof (induction r rule: ReadCommand.induct)
  case (1 r)
  show ?case
  proof (cases "buffered r")
    case (Some x)
    then have b: "buffered r = Some (Inr (rw, av, fl), r')"
      using "1.prems" by (simp add: ReadCommand.simps [of r])
    note f = buffered_Inr [OF b]
    from f(2) obtain t where t: "readBufferedCommand (buf r) = Inr (rw, av, t)" by blast
    have ne: "buf r \<noteq> []" using f(1) f(7) by auto
    have "readBufferedCommand (stream r) = Inr (rw, av, t)"
      using readBufferedCommand_append [OF ne, of "concat (rd r)"] t f(1)
      by (simp add: stream_def)
    then show ?thesis using f by (auto simp: stream_def)
  next
    case None
    show ?thesis
    proof (cases "source_Read (rd (own_buffer r))")
      case n: None
      then show ?thesis using "1.prems" None by (simp add: ReadCommand.simps [of r])
    next
      case (Some br)
      obtain bytes rest where br: "br = (bytes, rest)" by (cases br)
      have rc: "ReadCommand (fill (own_buffer r) bytes rest) = (Inr (rw, av, fl), r')"
        using "1.prems" None Some br by (simp add: ReadCommand.simps [of r])
      have st: "stream (fill (own_buffer r) bytes rest) = stream r"
        using source_Read_concat [OF Some [unfolded br]] by (simp add: stream_def)
      show ?thesis using "1.IH" [OF None Some [unfolded br] refl rc] unfolding st .
    qed
  qed
qed

lemma ReadCommand_Inl:
  "ReadCommand r = (Inl e, r') \<Longrightarrow>
   (if stream r = [] \<or> need_more (readBufferedCommand (stream r)) then e = EOF
    else readBufferedCommand (stream r) = Inl e)"
proof (induction r rule: ReadCommand.induct)
  case (1 r)
  show ?case
  proof (cases "buffered r")
    case (Some x)
    then have b: "buffered r = Some (Inl e, r')"
      using "1.prems" by (simp add: ReadCommand.simps [of r])
    then have ne: "buf r \<noteq> []" and p: "readBufferedCommand (buf r) = Inl e"
      using buffered_Inl by blast+
    have "readBufferedCommand (stream r) = Inl e"
      using readBufferedCommand_append [OF ne, of "concat (rd r)"] p by (simp add: stream_def)
    then show ?thesis using ne by (simp add: stream_def)
  next
    case None
    show ?thesis
    proof (cases "source_Read (rd (own_buffer r))")
      case n: None
      then have "rd r = []" by (auto dest: source_Read_None)
      then have "stream r = [] \<or> need_more (readBufferedCommand (stream r))"
        using buffered_None [OF None] by (simp add: stream_def)
      moreover have "e = EOF" using "1.prems" None n by (simp add: ReadCommand.simps [of r])
      ultimately show ?thesis by simp
    next
      case (Some br)
      obtain bytes rest where br: "br = (bytes, rest)" by (cases br)
      have rc: "ReadCommand (fill (own_buffer r) bytes rest) = (Inl e, r')"
        using "1.prems" None Some br by (simp add: ReadCommand.simps [of r])
      have st: "stream (fill (own_buffer r) bytes rest) = stream r"
        using source_Read_concat [OF Some [unfolded br]] by (simp add: stream_def)
      show ?thesis using "1.IH" [OF None Some [unfolded br] refl rc] unfolding st .
    qed
  qed
qed


lemma ReadCommand_error:
  assumes "stream r \<noteq> []" "readBufferedCommand (stream r) = Inl e"
  shows "\<exists>r'. ReadCommand r = (Inl e, r')"
proof -
  obtain res r' where rc: "ReadCommand r = (res, r')" by (cases "ReadCommand r")
  show ?thesis
  proof (cases res)
    case (Inl e')
    then show ?thesis using ReadCommand_Inl [of r e' r'] rc assms by auto
  next
    case (Inr x)
    obtain rw' av' fl where x: "x = (rw', av', fl)" by (cases x)
    then show ?thesis using ReadCommand_Inr [of r rw' av' fl r'] rc Inr assms by auto
  qed
qed

text \<open>The commands a reader decodes are those \<open>parse_stream\<close> cuts off its stream.\<close>

lemma parse_stream_error:
  "s \<noteq> [] \<Longrightarrow> readBufferedCommand s = Inl e \<Longrightarrow> parse_stream s = ([], e)"
  by (simp add: parse_stream.simps [of s])

lemma parse_stream_more:
  "s = [] \<or> need_more (readBufferedCommand s) \<Longrightarrow> parse_stream s = ([], EOF)"
  by (auto simp: parse_stream.simps [of s] need_more_def split: sum.splits)

lemma parse_stream_command:
  "s \<noteq> [] \<Longrightarrow> readBufferedCommand s = Inr (rw, av, t) \<Longrightarrow> rw \<noteq> [] \<Longrightarrow>
   parse_stream s = (case parse_stream (drop (length rw) s) of (cmds, err) \<Rightarrow> (av # cmds, err))"
  by (simp add: parse_stream.simps [of s])

lemma decode_all_stream: "decode_all r = parse_stream (stream r)"
proof (induction r rule: decode_all.induct)
  case (1 r)
  obtain res r' where rc: "ReadCommand r = (res, r')" by (cases "ReadCommand r")
  show ?case
  proof (cases res)
    case (Inl e)
    have "parse_stream (stream r) = ([], e)"
    proof (cases "stream r = [] \<or> need_more (readBufferedCommand (stream r))")
      case True
      then show ?thesis
        using ReadCommand_Inl [OF rc [unfolded Inl]] parse_stream_more [of "stream r"] by simp
    next
      case False
      then show ?thesis
        using ReadCommand_Inl [OF rc [unfolded Inl]] by (simp add: parse_stream_error)
    qed
    then show ?thesis using rc Inl by (simp add: decode_all.simps [of r])
  next
    case (Inr x)
    obtain rw av fl where x: "x = (rw, av, fl)" by (cases x)
    note f = ReadCommand_Inr [OF rc [unfolded Inr x]]
    from f obtain t where t: "readBufferedCommand (stream r) = Inr (rw, av, t)" by blast
    have ne: "stream r \<noteq> []" using t by auto
    have "parse_stream (stream r) =
        (case parse_stream (stream r') of (cmds, err) \<Rightarrow> (av # cmds, err))"
      using parse_stream_command [OF ne t] f by simp
    moreover have "decode_all r' = parse_stream (stream r')"
      using "1.IH" [OF rc [symmetric] Inr x [symmetric] refl] by simp
    ultimately show ?thesis using rc Inr x by (simp add: decode_all.simps [of r])
  qed
qed

section \<open>Frames with a known header\<close>

text \<open>
  The parser on a buffer that starts with a multibulk header line: the first scan
  stops at the header's LF, and the count is what \<^verbatim>\<open>ParseInt\<close> makes of the bytes
  between the star and the CR.
\<close>

lemma scan_lf_first:
  "i \<le> length pre \<Longrightarrow> LF \<notin> set (drop i pre) \<Longrightarrow> scan_lf (pre @ LF # post) i = length pre"
proof (induction "length pre - i" arbitrary: i)
  case 0
  then have "i = length pre" by simp
  then show ?case by (subst scan_lf.simps) simp
next
  case (Suc d)
  then have i: "i < length pre" by simp
  then have "pre ! i \<in> set (drop i pre)"
    by (metis Cons_nth_drop_Suc list.set_intros(1))
  then have "pre ! i \<noteq> LF" using Suc.prems(2) by auto
  moreover have "LF \<notin> set (drop (i + 1) pre)"
    using Suc.prems(2) by (metis Suc_eq_plus1 set_drop_subset_set_drop subsetD le_add1)
  ultimately show ?case
    using Suc.hyps(1) [of "i + 1"] Suc.hyps(2) i
    by (subst scan_lf.simps) (simp add: nth_append)
qed

lemma is_digit_LF [simp]: "\<not> is_digit LF"
  by (simp add: is_digit_def)

lemma parse_digits_LF: "parse_digits s = Some v \<Longrightarrow> LF \<notin> set s"
  by (auto simp: parse_digits_def list_all_iff split: if_splits)

lemma ParseInt_LF: "ParseInt s = Some n \<Longrightarrow> LF \<notin> set s"
  by (cases s) (auto simp: ParseInt_def Let_def dest!: parse_digits_LF split: option.splits if_splits)

lemma header_scan:
  assumes "LF \<notin> set cnt"
  shows "scan_lf (CHR ''*'' # cnt @ CR # LF # rest) (Suc 0) = length cnt + 2"
  using scan_lf_first [of 1 "CHR ''*'' # cnt @ [CR]" rest] assms by simp

lemma slice_middle: "slice (a @ b @ c) (int (length a)) (int (length a) + int (length b)) = Some b"
  by (simp add: slice_def nat_add_distrib)

lemma header_slice:
  "slice (CHR ''*'' # cnt @ CR # LF # rest) 1 (int (length cnt + 2) - 1) = Some cnt"
  using slice_middle [of "[CHR ''*'']" cnt "CR # LF # rest"] by (simp add: add.commute)

lemma multibulk_header:
  assumes "ParseInt cnt = Some n"
  shows "readBufferedCommand (CHR ''*'' # cnt @ CR # LF # rest) =
     (if n \<le> 0 then Inr (CHR ''*'' # cnt @ CRLF, [], False)
      else readBulks (CHR ''*'' # cnt @ CR # LF # rest) n 0 (int (length cnt) + 3) [])"
proof -
  have lf: "LF \<notin> set cnt" using assms by (rule ParseInt_LF)
  have nth: "(CHR ''*'' # cnt @ CR # LF # rest) ! (length cnt + 1) = CR"
    by (simp add: nth_append)
  show ?thesis
    using header_scan [OF lf, of rest] header_slice [of cnt rest] nth assms
    by (simp add: readBufferedCommand_def Let_def add.commute)
qed


text \<open>
  The loop over the bulks at a length field: one step of it, the step over a well-formed
  bulk, and the protocol error at a field that \<^verbatim>\<open>ParseUint\<close> refuses, after any
  number of well-formed bulks.
\<close>

lemma ParseUint_LF: "ParseUint s = Some v \<Longrightarrow> LF \<notin> set s"
  by (auto simp: ParseUint_def dest!: parse_digits_LF split: option.splits if_splits)

lemma readBulks_field:
  assumes "j < n" and "LF \<notin> set fld"
  shows "readBulks (pre @ ''$'' @ fld @ CRLF @ tail) n j (int (length pre)) av =
     (case ParseUint fld of
        None \<Rightarrow> Inl (protocolError ''invalid bulk length'')
      | Some n2 \<Rightarrow>
          (let i1 = int (length pre) + int (length fld) + 3
           in if int (length (pre @ ''$'' @ fld @ CRLF @ tail)) - i1 < int64 (uint64 (n2 + 2))
              then Inr ([], [], False)
              else
                (case slice (pre @ ''$'' @ fld @ CRLF @ tail) i1 (int64 (i1 + int64 n2)) of
                   None \<Rightarrow> Inl panic
                 | Some arg \<Rightarrow>
                     (let i2 = int64 (i1 + int64 (uint64 (n2 + 2)))
                      in if j = n - 1 then
                           (case slice (pre @ ''$'' @ fld @ CRLF @ tail) 0 i2 of
                              None \<Rightarrow> Inl panic
                            | Some rw \<Rightarrow> Inr (rw, av @ [arg], False))
                         else readBulks (pre @ ''$'' @ fld @ CRLF @ tail) n (j + 1) i2
                                (av @ [arg])))))"
proof -
  define data where "data = pre @ ''$'' @ fld @ CRLF @ tail"
  define i where "i = length pre"
  have d: "data = (pre @ CHR ''$'' # fld @ [CR]) @ LF # tail"
    by (simp add: data_def)
  have len: "int i < int (length data)" by (simp add: data_def i_def)
  have dollar: "data ! i = CHR ''$''" by (simp add: data_def i_def)
  have k: "scan_lf data i = i + length fld + 2"
    unfolding d using scan_lf_first [of i "pre @ CHR ''$'' # fld @ [CR]" tail] assms(2)
    by (simp add: i_def)
  have klen: "int i + int (length fld) + 2 < int (length data)"
    by (simp add: data_def i_def)
  have cr: "data ! nat (int i + int (length fld) + 2 - 1) = CR"
    by (simp add: data_def i_def nth_append nat_add_distrib)
  have sl: "slice data (int i + 1) (int i + int (length fld) + 2 - 1) = Some fld"
    using slice_middle [of "pre @ [CHR ''$'']" fld "CR # LF # tail"]
    by (simp add: data_def i_def add.commute add.left_commute)
  have kk: "int (scan_lf data (nat (int i))) = int i + int (length fld) + 2"
    by (simp add: k)
  have e: "int i + int (length fld) + 2 + 1 = int i + int (length fld) + 3" by simp
  show ?thesis
    unfolding data_def [symmetric] i_def [symmetric]
    using assms(1) len dollar k klen cr sl
    by (subst readBulks.simps)
      (simp add: Let_def add.commute add.left_commute cong: option.case_cong if_cong)
qed

lemma bad_field_at:
  assumes "j < n" and "LF \<notin> set field" and "ParseUint field = None"
  shows "readBulks (pre @ ''$'' @ field @ CRLF @ rest) n j (int (length pre)) av =
     Inl (protocolError ''invalid bulk length'')"
  unfolding readBulks_field [OF assms(1,2)] by (simp add: assms(3))

lemma good_bulk_at:
  assumes "j + 1 < n" and "well_formed_bulk b"
    and "int (length (pre @ bulk_bytes b)) < 2 ^ 63"
  shows "readBulks (pre @ bulk_bytes b @ rest) n j (int (length pre)) av =
     readBulks (pre @ bulk_bytes b @ rest) n (j + 1) (int (length (pre @ bulk_bytes b)))
       (av @ [snd b])"
proof -
  obtain fld payload where b: "b = (fld, payload)" by (cases b)
  have pu: "ParseUint fld = Some (int (length payload))"
    using assms(2) by (simp add: well_formed_bulk_def b)
  have lf: "LF \<notin> set fld" using pu by (rule ParseUint_LF)
  have j: "j < n" "j \<noteq> n - 1" using assms(1) by simp_all
  define i1 where "i1 = int (length pre) + int (length fld) + 3"
  have bound: "i1 + int (length payload) + 2 < 2 ^ 63"
    using assms(3) by (simp add: i1_def b bulk_bytes_def)
  have i1: "0 \<le> i1" by (simp add: i1_def)
  have w1: "int64 (uint64 (int (length payload) + 2)) = int (length payload) + 2"
    using bound i1 by (simp add: int64_id)
  have w2: "int64 (i1 + int64 (int (length payload))) = i1 + int (length payload)"
    using bound i1 by (simp add: int64_id)
  have w3: "int64 (i1 + (int (length payload) + 2)) = i1 + int (length payload) + 2"
    using bound i1 by (simp add: int64_id)
  have arg: "slice (pre @ ''$'' @ fld @ CRLF @ payload @ CRLF @ rest) i1 (i1 + int (length payload))
      = Some payload"
    using slice_middle [of "pre @ CHR ''$'' # fld @ CRLF" payload "CR # LF # rest"]
    by (simp add: i1_def add.commute add.left_commute)
  have room: "\<not> int (length (pre @ ''$'' @ fld @ CRLF @ payload @ CRLF @ rest)) - i1
      < int (length payload) + 2"
    by (simp add: i1_def)
  have "readBulks (pre @ ''$'' @ fld @ CRLF @ payload @ CRLF @ rest) n j (int (length pre)) av =
      readBulks (pre @ ''$'' @ fld @ CRLF @ payload @ CRLF @ rest) n (j + 1)
        (i1 + int (length payload) + 2) (av @ [payload])"
    unfolding readBulks_field [OF j(1) lf, of pre "payload @ CRLF @ rest" av] pu
      i1_def [symmetric]
    using j(2) by (simp only: option.case Let_def w1 w2 w3 room arg if_False)
  then show ?thesis
    by (simp add: b bulk_bytes_def i1_def add.commute add.left_commute)
qed

lemma bad_field_after_bulks:
  assumes "list_all well_formed_bulk oks" and "j + int (length oks) < n"
    and "LF \<notin> set field" and "ParseUint field = None"
    and "int (length (pre @ concat (map bulk_bytes oks))) < 2 ^ 63"
  shows "readBulks (pre @ concat (map bulk_bytes oks) @ ''$'' @ field @ CRLF @ rest) n j
       (int (length pre)) av = Inl (protocolError ''invalid bulk length'')"
  using assms
proof (induction oks arbitrary: pre j av)
  case Nil
  then show ?case using bad_field_at [of j n field pre rest av] by simp
next
  case (Cons b bs)
  have wf: "well_formed_bulk b" "list_all well_formed_bulk bs" using Cons.prems(1) by simp_all
  have j: "j + 1 < n" "(j + 1) + int (length bs) < n" using Cons.prems(2) by simp_all
  have b1: "int (length (pre @ bulk_bytes b)) < 2 ^ 63" using Cons.prems(5) by simp
  have b2: "int (length ((pre @ bulk_bytes b) @ concat (map bulk_bytes bs))) < 2 ^ 63"
    using Cons.prems(5) by simp
  have "readBulks (pre @ bulk_bytes b @ concat (map bulk_bytes bs) @ ''$'' @ field @ CRLF @ rest)
      n j (int (length pre)) av =
    readBulks ((pre @ bulk_bytes b) @ concat (map bulk_bytes bs) @ ''$'' @ field @ CRLF @ rest)
      n (j + 1) (int (length (pre @ bulk_bytes b))) (av @ [snd b])"
    using good_bulk_at [OF j(1) wf(1) b1, of "concat (map bulk_bytes bs) @ ''$'' @ field @ CRLF @ rest" av]
    by simp
  also have "\<dots> = Inl (protocolError ''invalid bulk length'')"
    by (rule Cons.IH [OF wf(2) j(2) Cons.prems(3,4) b2])
  finally show ?case by simp
qed

lemma bad_bulk_length:
  assumes "ParseInt cnt = Some n" and "list_all well_formed_bulk oks" and "int (length oks) < n"
    and "LF \<notin> set field" and "ParseUint field = None"
    and "int (length (''*'' @ cnt @ CRLF @ concat (map bulk_bytes oks))) < 2 ^ 63"
  shows "readBufferedCommand
       (''*'' @ cnt @ CRLF @ concat (map bulk_bytes oks) @ ''$'' @ field @ CRLF @ rest) =
     Inl (protocolError ''invalid bulk length'')"
proof -
  have n: "0 < n" "0 + int (length oks) < n" using assms(3) by simp_all
  have "readBulks ((''*'' @ cnt @ CRLF) @ concat (map bulk_bytes oks) @ ''$'' @ field @ CRLF @ rest)
      n 0 (int (length (''*'' @ cnt @ CRLF))) [] = Inl (protocolError ''invalid bulk length'')"
    using assms(6) by (intro bad_field_after_bulks [OF assms(2) n(2) assms(4,5)]) simp
  then show ?thesis
    using multibulk_header [OF assms(1), of "concat (map bulk_bytes oks) @ ''$'' @ field @ CRLF @ rest"] n(1)
    by (simp add: add.commute)
qed

section \<open>Claims\<close>

text \<open>
  Claim C2. For every byte sequence and every way of splitting it into successive
  deliveries to \<^verbatim>\<open>ReadCommand\<close>, the ordered sequence of decoded argument lists is the
  one produced when the whole sequence is delivered in one piece; the error that ends
  the sequence is the same too. (Each read of a delivery takes at most \<open>rbuf_size\<close>
  bytes of it, on both sides.) Both readers decode what \<open>parse_stream\<close> cuts off the
  concatenated bytes (\<open>decode_all_stream\<close>), as the parser's answer on a buffer does
  not change when bytes are appended, unless it was need-more-data.
\<close>

theorem split_delivery:
  "decode_all (NewReader chunks) = decode_all (NewReader [concat chunks])"
  by (simp add: decode_all_stream stream_def NewReader_def)

lemma register_opts_flags:
  "Write (register_opts opts cmd) = (Write cmd \<or> CHR ''w'' \<in> set opts)"
  "Read (register_opts opts cmd) =
     (CHR ''w'' \<notin> set opts \<and> (Read cmd \<or> (CHR ''r'' \<in> set opts \<and> \<not> Write cmd)))"
  by (induction opts arbitrary: cmd) auto

text \<open>
  Claim C10. For every options string passed to \<^verbatim>\<open>register\<close>, the command stored
  under the name has \<open>Write\<close> set exactly when the string holds a \<open>w\<close>, and \<open>Read\<close> set
  exactly when it holds an \<open>r\<close> and no \<open>w\<close>; so \<open>Read\<close> and \<open>Write\<close> are never both
  set.
\<close>

theorem register_exclusive:
  "(case register commands commandName f opts commandName of
      None \<Rightarrow> False
    | Some cmd \<Rightarrow>
        Write cmd = (CHR ''w'' \<in> set opts)
        \<and> Read cmd = (CHR ''r'' \<in> set opts \<and> CHR ''w'' \<notin> set opts)
        \<and> \<not> (Read cmd \<and> Write cmd))"
  by (auto simp: register_def register_opts_flags)


lemma handleConn_loop_error:
  "ReadCommand r = (Inl (protocolError m), r') \<Longrightarrow>
   handleConn_loop unicode_lower commands r c server = (Closed, ReplyError c (Error m), server)"
  by (simp add: handleConn_loop.simps [of unicode_lower commands r])





text \<open>
  Claim C4, as the code has it. Whenever \<^verbatim>\<open>ReadCommand\<close> returns a command, its flush
  flag is true exactly when the command drained the reader's buffer or the buffer is a
  copied one (\<^verbatim>\<open>rd.copied\<close>: pending bytes were kept over a read of the source). The
  framing of the command has no part in it: the telnet flag of the parser is dropped
  in \<^verbatim>\<open>ReadCommand\<close>.
\<close>

theorem flush_flag:
  "ReadCommand r = (Inr (rw, av, fl), r') \<Longrightarrow> fl = (buf r' = [] \<or> copied r')"
  by (drule ReadCommand_Inr) simp

theorem flush_flag_witness:
  "ReadCommand (NewReader [''PING'' @ CRLF]) =
     (Inr (''PING'' @ CRLF, [''PING''], True), \<lparr>rd = [], buf = [], copied = False\<rparr>)
   \<and> True = (buf \<lparr>rd = [], buf = [], copied = False\<rparr> = []
              \<or> copied \<lparr>rd = [], buf = [], copied = False\<rparr>)"
proof -
  have h: "ReadCommand (NewReader [''PING'' @ CRLF]) =
     (Inr (''PING'' @ CRLF, [''PING''], True), \<lparr>rd = [], buf = [], copied = False\<rparr>)"
    by code_simp
  show ?thesis using h flush_flag [OF h] by simp
qed

text \<open>
  The claim as stated fails: a single delivery with two inline commands is parsed in
  inline framing (the parser's telnet flag is set), and \<^verbatim>\<open>ReadCommand\<close> returns the
  first of them, which leaves bytes behind in a buffer that is no copy, with
  \<open>flush = False\<close>.
\<close>

theorem inline_not_flushed:
  "readBufferedCommand (''get a'' @ [LF] @ ''get b'' @ [LF]) =
     Inr (''get a'' @ [LF], [''get'', ''a''], True)
   \<and> ReadCommand (NewReader [''get a'' @ [LF] @ ''get b'' @ [LF]]) =
     (Inr (''get a'' @ [LF], [''get'', ''a''], False),
      \<lparr>rd = [], buf = ''get b'' @ [LF], copied = False\<rparr>)"
  by code_simp

text \<open>
  Claim C6. A multibulk frame with a bulk-length field that is not a number (the field
  holds no LF and \<^verbatim>\<open>ParseUint\<close> refuses it, as in \<^verbatim>\<open>*2\r\n$abc\r\n\<close>), be it the
  field of the first bulk or of a later one after well-formed bulks, wherever the
  connection's bytes put the frame next and however they are delivered, ends the
  connection loop: the fault description is written to the client as an error reply,
  the handler returns, which closes the connection, and the server (keyspace, staging
  buffer, log file and locks) is as it was before the frame; no bulk of the frame is
  dispatched. The bytes up to the faulty field are fewer than \<open>2^63\<close>, as the bytes of
  every Go slice are.
\<close>

theorem bad_bulk_length_closes:
  assumes "ParseInt cnt = Some n" and "list_all well_formed_bulk oks" and "int (length oks) < n"
    and "LF \<notin> set field" and "ParseUint field = None"
    and "int (length (''*'' @ cnt @ CRLF @ concat (map bulk_bytes oks))) < 2 ^ 63"
    and "stream r =
      ''*'' @ cnt @ CRLF @ concat (map bulk_bytes oks) @ ''$'' @ field @ CRLF @ rest"
  shows "handleConn_loop unicode_lower commands r c server =
     (Closed, c\<lparr>wr := wr_Write (wr c) (''-ERR Protocol error: invalid bulk length'' @ CRLF)\<rparr>,
      server)"
proof -
  have "readBufferedCommand (stream r) = Inl (protocolError ''invalid bulk length'')"
    unfolding assms(7) using assms(1-6) by (rule bad_bulk_length)
  moreover have "stream r \<noteq> []" by (simp add: assms(7))
  ultimately obtain r' where "ReadCommand r = (Inl (protocolError ''invalid bulk length''), r')"
    using ReadCommand_error by blast
  then show ?thesis
    by (simp add: handleConn_loop_error ReplyError_def Error_def)
qed

theorem bad_bulk_length_closes_witness:
  "handleConn id (Map.empty :: string \<rightharpoonup> string Command)
     [''*2'' @ CRLF @ ''$3'' @ CRLF @ ''fo'', ''o'' @ CRLF @ ''$abc'' @ CRLF]
     \<lparr>keys = [''k'' \<mapsto> ''v''], aofbuf = ''staged'', aof = ''log'', mu = [], aofmu = []\<rparr>
   = (Closed,
      \<lparr>wr = Buffered [] (''-ERR Protocol error: invalid bulk length'' @ CRLF), args = [], raw = []\<rparr>,
      \<lparr>keys = [''k'' \<mapsto> ''v''], aofbuf = ''staged'', aof = ''log'', mu = [], aofmu = []\<rparr>)"
proof -
  have h1: "ParseInt ''2'' = Some 2" by code_simp
  have h2: "list_all well_formed_bulk [(''3'', ''foo'')]" by code_simp
  have h3: "int (length [(''3'', ''foo'')]) < 2" by simp
  have h4: "LF \<notin> set ''abc''" by simp
  have h5: "ParseUint ''abc'' = None" by code_simp
  have h6: "int (length (''*'' @ ''2'' @ CRLF @ concat (map bulk_bytes [(''3'', ''foo'')]))) < 2 ^ 63"
    by (simp add: bulk_bytes_def)
  have h7: "stream (NewReader [''*2'' @ CRLF @ ''$3'' @ CRLF @ ''fo'', ''o'' @ CRLF @ ''$abc'' @ CRLF]) =
      ''*'' @ ''2'' @ CRLF @ concat (map bulk_bytes [(''3'', ''foo'')]) @ ''$'' @ ''abc'' @ CRLF @ []"
    by (simp add: stream_def NewReader_def bulk_bytes_def)
  show ?thesis
    unfolding handleConn_def bad_bulk_length_closes [OF h1 h2 h3 h4 h5 h6 h7]
    by simp
qed



section \<open>Where the code departs from a claim\<close>

text \<open>
  Claim C1 says that the replay of the log reproduces the live keyspace, also for
  commands whose name is not in lower case. \<^verbatim>\<open>handleConn\<close> looks a command up under
  \<^verbatim>\<open>strings.ToLower(args[0])\<close> and logs the raw bytes as they came; the replay loop of
  \<^verbatim>\<open>Start\<close> looks \<^verbatim>\<open>args[0]\<close> up as it stands. So the replay of a log that holds
  the multibulk request \<^verbatim>\<open>SET x 1\<close> counts one command and calls no handler,
  whatever the three handlers of the table are: \<open>x\<close> is unset. On the live server,
  with the set handler as the spec describes it, the same request sets \<open>x\<close> and
  reaches the log file byte for byte.
\<close>

theorem replay_misses_uppercase:
  "(case Start (commandTable getCommand handler delCommand)
           (''*3'' @ CRLF @ ''$3'' @ CRLF @ ''SET'' @ CRLF @ ''$1'' @ CRLF @ ''x'' @ CRLF
              @ ''$1'' @ CRLF @ ''1'' @ CRLF) of
      (e, replayed) \<Rightarrow> e = Loaded 1 \<and> GetKey replayed ''x'' = None)
   \<and> (case handleConn unicode_lower (commandTable getCommand setCommand delCommand)
           [''*3'' @ CRLF @ ''$3'' @ CRLF @ ''SET'' @ CRLF @ ''$1'' @ CRLF @ ''x'' @ CRLF
              @ ''$1'' @ CRLF @ ''1'' @ CRLF]
           \<lparr>keys = Map.empty, aofbuf = [], aof = [], mu = [], aofmu = []\<rparr> of
      (e, c, live) \<Rightarrow>
        e = Closed \<and> GetKey live ''x'' = Some ''1'' \<and> aofbuf live = []
        \<and> aof live = ''*3'' @ CRLF @ ''$3'' @ CRLF @ ''SET'' @ CRLF @ ''$1'' @ CRLF @ ''x'' @ CRLF
              @ ''$1'' @ CRLF @ ''1'' @ CRLF)"
  by code_simp

text \<open>
  Claim C3 says that the inline line \<^verbatim>\<open>set "a b" 1\<close> yields the arguments \<^verbatim>\<open>set\<close>,
  \<^verbatim>\<open>a b\<close> and \<^verbatim>\<open>1\<close>. The \<^verbatim>\<open>case ' '\<close> of \<^verbatim>\<open>parseArgsFromTelnetLine\<close> does not look
  at \<^verbatim>\<open>quote\<close>, so the space inside the quotes ends a token: the code yields the four
  arguments \<^verbatim>\<open>set\<close>, \<^verbatim>\<open>"a\<close>, the empty string and \<^verbatim>\<open>1\<close>.
\<close>

theorem quoted_space_splits:
  \<open>parseArgsFromTelnetLine ''set "a b" 1'' = Inr [''set'', [DQUOTE, CHR ''a''], [], ''1'']\<close>
  by code_simp

text \<open>
  Claim C5 says that a declared bulk length above the buffered bytes gives
  need-more-data, for every length \<^verbatim>\<open>ParseUint\<close> accepts. The length \<open>2^64 - 1\<close> is
  accepted; \<^verbatim>\<open>int(n2+2)\<close> is 1 for it, so with no byte after the length line the
  parser asks for more, and with one byte buffered the test \<^verbatim>\<open>len(data)-i < int(n2+2)\<close>
  lets the request pass and the slice \<^verbatim>\<open>data[i:i+int(n2)]\<close>, whose upper bound is
  \<open>i - 1\<close>, panics.
\<close>

theorem huge_bulk_length_panics:
  "ParseUint ''18446744073709551615'' = Some (2 ^ 64 - 1)
   \<and> readBufferedCommand (''*1'' @ CRLF @ ''$18446744073709551615'' @ CRLF) = Inr ([], [], False)
   \<and> readBufferedCommand (''*1'' @ CRLF @ ''$18446744073709551615'' @ CRLF @ ''x'') = Inl panic"
  by code_simp

text \<open>
  Claim C8 says that an empty inline line decodes to an empty argument list, also the
  line that is a single LF. The loop of \<^verbatim>\<open>readBufferedTelnetCommand\<close> starts at index
  1, so an LF at index 0 is not seen as a line end: a buffer holding one LF is answered
  with need-more-data, and the LF becomes the first byte of the next line's first
  argument. The empty line ended by CRLF decodes to an empty argument list.
\<close>

theorem lone_LF_not_empty_line:
  "readBufferedCommand [LF] = Inr ([], [], True)
   \<and> readBufferedCommand ([LF] @ ''get a'' @ [LF]) =
       Inr ([LF] @ ''get a'' @ [LF], [[LF] @ ''get'', ''a''], True)
   \<and> readBufferedCommand (CRLF @ ''get a'' @ [LF]) = Inr (CRLF, [], True)"
  by code_simp

text \<open>
  Claim C9 says that \<^verbatim>\<open>readBufferedCommand\<close> returns a command, need-more-data or a
  protocol error on every non-empty buffer, with every access in range, also for
  declared lengths up to \<open>2^64 - 1\<close>. For the length \<open>2^64 - 2\<close> the sum \<^verbatim>\<open>n2+2\<close> wraps
  to 0 and for \<open>2^63\<close> the conversion \<^verbatim>\<open>int(n2+2)\<close> is negative; both pass the length
  test with nothing buffered after the length line and panic in the slice
  \<^verbatim>\<open>data[i:i+int(n2)]\<close>. The inline line \<^verbatim>\<open>"a "\<close> panics as well, in the slice
  \<^verbatim>\<open>line[s+1:i]\<close> of \<^verbatim>\<open>parseArgsFromTelnetLine\<close>.
\<close>

theorem slice_out_of_range:
  "readBufferedCommand (''*1'' @ CRLF @ ''$18446744073709551614'' @ CRLF) = Inl panic
   \<and> readBufferedCommand (''*1'' @ CRLF @ ''$9223372036854775808'' @ CRLF) = Inl panic
   \<and> readBufferedCommand ([DQUOTE] @ ''a '' @ [DQUOTE, LF]) = Inl panic"
  by code_simp

end
